theory Spec2Isabelle
  imports Main
begin

section \<open>Service.h: a task handle and a single-worker service thread\<close>

text \<open>
  The header defines three classes. \<open>CServiceFunctionHandler\<close> is a hook interface with
  two virtual callbacks, \<open>CServiceFunction\<close> is a heap-allocated task handle (a stored
  callable and a raw pointer to a hook), and \<open>CServiceThread\<close> owns a deque of pointers to
  task handles, a mutex, a condition variable, three atomic flags and the thread running
  \<open>Wait\<close>.

  The model keeps the pointers: task handles live in an explicit store, the queue holds
  addresses, and \<open>delete\<close> removes a cell from the store. A callable and a hook object are
  opaque to the header, so each is represented by an identity, and what the worker does
  with them is recorded as a sequence of events. Every use of a pointer that C++ leaves
  undefined (a call through a null or indeterminate pointer, a call through a pointer to
  a deleted handle) and every exception of the library that the header can raise is a
  \<open>fault\<close> value, returned with the state at which it happened.
\<close>

subsection \<open>Data\<close>

type_synonym addr = nat
type_synonym handler = nat
type_synonym callable = nat

text \<open>A raw pointer value: never written, null, or the address of an object.\<close>

datatype 'a ptr = Indeterminate | Null | Ptr 'a

text \<open>\<open>class CServiceFunction\<close>: the two data members.\<close>

record CServiceFunction =
  m_pHandler :: "handler ptr"
  m_Context :: callable

text \<open>
  What the worker makes observable: the two virtual callbacks of a hook object and the run
  of a stored callable.
\<close>

datatype event = OnCallFunction handler | ContextRun callable | OnReturnFunction handler

datatype fault =
    NullDereference
  | IndeterminateRead
  | DanglingHandle addr
  | EmptyQueueAccess
  | LockError

datatype thread = Worker | Producer nat

text \<open>The shared variables of \<open>CServiceThread\<close> that some member function writes.\<close>

datatype shared = WorkQueue | WorkFlag | DeleteLaterFlag

text \<open>
  Where the thread running \<open>Wait\<close> stands between two of its atomic steps: before the
  \<open>scoped_lock\<close> of line 131, at the test of the \<open>while\<close> of line 133, blocked inside
  \<open>m_Condition.wait\<close> of line 140, or gone after \<open>SafeRelease\<close>.
\<close>

datatype worker_pc = Entry | LoopTest | CondWait | Exited

text \<open>
  The state: the data members of \<open>CServiceThread\<close> (\<open>m_Thread\<close> is the worker, whose
  position is \<open>pc\<close> and whose local \<open>lock.owns_lock()\<close> is \<open>owns_lock\<close>;
  \<open>m_Condition\<close> has no state in the model, a blocked worker can step again as soon as
  its predicate holds), the store of task handles with the next address \<open>new\<close> hands out,
  the events so far, and for every write of a shared variable who wrote what and whether
  the writer held \<open>m_Mutex\<close> at that moment.
\<close>

record state =
  m_WorkQueue :: "addr list"
  m_Mutex :: "thread option"
  m_bBusy :: bool
  m_bWork :: bool
  m_bDeleteLater :: bool
  pc :: worker_pc
  owns_lock :: bool
  heap :: "addr \<rightharpoonup> CServiceFunction"
  brk :: addr
  trace :: "event list"
  mutations :: "(thread \<times> shared \<times> bool) list"

type_synonym result = "(fault \<times> state) + state"

subsection \<open>\<open>CServiceFunction\<close>\<close>

text \<open>
  The five constructors, in the order of the header (lines 26, 31, 36, 41, 46). Binding
  arguments to a function (\<open>boost::bind\<close>) yields again a callable, so the bound
  arguments do not appear. The constructor of line 46 has no initialiser for
  \<open>m_pHandler\<close> and does not assign it in its body.
\<close>

definition CServiceFunction_f :: "callable \<Rightarrow> CServiceFunction" where
  "CServiceFunction_f f = \<lparr>m_pHandler = Null, m_Context = f\<rparr>"

definition CServiceFunction_f_handler :: "callable \<Rightarrow> handler ptr \<Rightarrow> CServiceFunction" where
  "CServiceFunction_f_handler f pHandler = \<lparr>m_pHandler = pHandler, m_Context = f\<rparr>"

definition CServiceFunction_bind :: "callable \<Rightarrow> CServiceFunction" where
  "CServiceFunction_bind f = \<lparr>m_pHandler = Null, m_Context = f\<rparr>"

definition CServiceFunction_handler_bind :: "handler ptr \<Rightarrow> callable \<Rightarrow> CServiceFunction" where
  "CServiceFunction_handler_bind pHandler f = \<lparr>m_pHandler = pHandler, m_Context = f\<rparr>"

definition CServiceFunction_attr :: "'attr \<Rightarrow> callable \<Rightarrow> CServiceFunction" where
  "CServiceFunction_attr attr f = \<lparr>m_pHandler = Indeterminate, m_Context = f\<rparr>"

text \<open>
  A virtual call \<open>p->OnCallFunction()\<close> or \<open>p->OnReturnFunction()\<close>: it reads the object
  \<open>p\<close> points to, so it is defined only for the address of a hook object.
\<close>

definition emit :: "event \<Rightarrow> state \<Rightarrow> state" where
  "emit e s = s\<lparr>trace := trace s @ [e]\<rparr>"

definition call_handler :: "(handler \<Rightarrow> event) \<Rightarrow> handler ptr \<Rightarrow> state \<Rightarrow> result" where
  "call_handler callback p s =
     (case p of
        Indeterminate \<Rightarrow> Inl (IndeterminateRead, s)
      | Null \<Rightarrow> Inl (NullDereference, s)
      | Ptr h \<Rightarrow> Inr (emit (callback h) s))"

text \<open>Sequencing: a fault ends the computation.\<close>

definition and_then :: "result \<Rightarrow> (state \<Rightarrow> result) \<Rightarrow> result" where
  "and_then r k = (case r of Inl e \<Rightarrow> Inl e | Inr s \<Rightarrow> k s)"

text \<open>
  \<open>CServiceFunction::Run\<close> (lines 64 to 68), called on the handle at address \<open>this\<close>:
  three calls in sequence, none of them guarded.
\<close>

definition CServiceFunction_Run :: "addr \<Rightarrow> state \<Rightarrow> result" where
  "CServiceFunction_Run this s =
     (case heap s this of
        None \<Rightarrow> Inl (DanglingHandle this, s)
      | Some obj \<Rightarrow>
          and_then (call_handler OnCallFunction (m_pHandler obj) s) (\<lambda>s1.
          and_then (Inr (emit (ContextRun (m_Context obj)) s1)) (\<lambda>s2.
          call_handler OnReturnFunction (m_pHandler obj) s2)))"

text \<open>\<open>CServiceFunction::Release\<close> (lines 60 to 62): \<open>delete this\<close>.\<close>

definition CServiceFunction_Release :: "addr \<Rightarrow> state \<Rightarrow> result" where
  "CServiceFunction_Release this s =
     (case heap s this of
        None \<Rightarrow> Inl (DanglingHandle this, s)
      | Some obj \<Rightarrow> Inr (s\<lparr>heap := (heap s)(this := None)\<rparr>))"

text \<open>\<open>new CServiceFunction(...)\<close>: a fresh cell of the store.\<close>

definition new :: "CServiceFunction \<Rightarrow> state \<Rightarrow> addr \<times> state" where
  "new obj s = (brk s, s\<lparr>heap := (heap s)(brk s \<mapsto> obj), brk := Suc (brk s)\<rparr>)"

subsection \<open>\<open>CServiceThread\<close>: the mutex and the writes of shared variables\<close>

text \<open>
  \<open>boost::mutex\<close> is not recursive: \<open>lock\<close> returns only once nobody holds the mutex, so
  in a state where it is held the caller stays blocked (\<open>None\<close>); \<open>try_lock\<close> is the same
  test without the wait.
\<close>

definition lock :: "thread \<Rightarrow> state \<Rightarrow> state option" where
  "lock t s = (if m_Mutex s = None then Some (s\<lparr>m_Mutex := Some t\<rparr>) else None)"

definition unlock :: "thread \<Rightarrow> state \<Rightarrow> state" where
  "unlock t s = s\<lparr>m_Mutex := None\<rparr>"

definition written :: "thread \<Rightarrow> shared \<Rightarrow> state \<Rightarrow> state" where
  "written t v s = s\<lparr>mutations := mutations s @ [(t, v, m_Mutex s = Some t)]\<rparr>"

definition push_back :: "thread \<Rightarrow> addr \<Rightarrow> state \<Rightarrow> state" where
  "push_back t a s = written t WorkQueue (s\<lparr>m_WorkQueue := m_WorkQueue s @ [a]\<rparr>)"

definition pop_front :: "thread \<Rightarrow> state \<Rightarrow> state" where
  "pop_front t s = written t WorkQueue (s\<lparr>m_WorkQueue := tl (m_WorkQueue s)\<rparr>)"

definition pop_back :: "thread \<Rightarrow> state \<Rightarrow> state" where
  "pop_back t s = written t WorkQueue (s\<lparr>m_WorkQueue := butlast (m_WorkQueue s)\<rparr>)"

definition notify_all :: "state \<Rightarrow> state" where
  "notify_all s = s"

subsection \<open>\<open>CServiceThread\<close>: construction and destruction\<close>

text \<open>
  The constructor (lines 109 to 115) sets the three flags and starts the thread, which
  has not yet run its first statement.
\<close>

definition CServiceThread :: state where
  "CServiceThread =
     \<lparr>m_WorkQueue = [], m_Mutex = None, m_bBusy = False, m_bWork = True,
      m_bDeleteLater = False, pc = Entry, owns_lock = False, heap = Map.empty,
      brk = 0, trace = [], mutations = []\<rparr>"

text \<open>
  \<open>Clear\<close> (lines 99 to 106), run by the destructor on the worker: while the queue is
  not empty it calls \<open>Release\<close> on the handle at index 0 and removes the last element.
\<close>

function Clear :: "state \<Rightarrow> result" where
  "Clear s =
     (if m_WorkQueue s = [] then Inr s
      else (case CServiceFunction_Release (m_WorkQueue s ! 0) s of
              Inl e \<Rightarrow> Inl e
            | Inr s1 \<Rightarrow> Clear (pop_back Worker s1)))"
  by pat_completeness auto
termination
proof (relation "measure (\<lambda>s. length (m_WorkQueue s))")
  show "wf (measure (\<lambda>s. length (m_WorkQueue s)))"
    by simp
next
  fix s s1
  assume "m_WorkQueue s \<noteq> []"
    and "CServiceFunction_Release (m_WorkQueue s ! 0) s = Inr s1"
  then show "(pop_back Worker s1, s) \<in> measure (\<lambda>s. length (m_WorkQueue s))"
    by (auto simp: CServiceFunction_Release_def pop_back_def written_def
        split: option.splits)
qed

text \<open>
  \<open>SafeRelease\<close> (lines 88 to 92): \<open>delete this\<close> runs the destructor (lines 94 to 97),
  which calls \<open>Clear\<close>; after it the object and its thread function are gone.
\<close>

definition SafeRelease :: "state \<Rightarrow> result" where
  "SafeRelease s = and_then (Clear s) (\<lambda>s1. Inr (s1\<lparr>pc := Exited\<rparr>))"

subsection \<open>\<open>CServiceThread\<close>: the two shutdown requests\<close>

text \<open>
  \<open>Release\<close> (lines 117 to 121) and \<open>ReleaseAfterWork\<close> (lines 123 to 127) store to an
  atomic flag and notify; neither touches the mutex.
\<close>

definition CServiceThread_Release :: "thread \<Rightarrow> state \<Rightarrow> state" where
  "CServiceThread_Release t s = notify_all (written t WorkFlag (s\<lparr>m_bWork := False\<rparr>))"

definition ReleaseAfterWork :: "thread \<Rightarrow> state \<Rightarrow> state" where
  "ReleaseAfterWork t s =
     notify_all (written t DeleteLaterFlag (s\<lparr>m_bDeleteLater := True\<rparr>))"

subsection \<open>\<open>CServiceThread\<close>: the worker\<close>

text \<open>The predicate of the condition wait (lines 142 to 144).\<close>

definition wait_predicate :: "state \<Rightarrow> bool" where
  "wait_predicate s = (m_WorkQueue s \<noteq> [] \<or> m_bDeleteLater s \<or> \<not> m_bWork s)"

text \<open>
  The rest of one iteration of \<open>Wait\<close> (lines 147 to 165), entered with the mutex held
  once the wait has returned. The handle is run and released after \<open>lock.unlock()\<close>;
  both touch only the handle, which the worker alone owns by then.
\<close>

definition Wait_body :: "state \<Rightarrow> result" where
  "Wait_body s =
     (if m_bDeleteLater s \<and> m_WorkQueue s = [] then
        SafeRelease ((unlock Worker s)\<lparr>owns_lock := False\<rparr>)
      else if \<not> m_bWork s then
        SafeRelease ((unlock Worker s)\<lparr>owns_lock := False\<rparr>)
      else
        (case m_WorkQueue s of
           [] \<Rightarrow> Inl (EmptyQueueAccess, s)
         | f # rest \<Rightarrow>
             and_then (CServiceFunction_Run f
                         ((unlock Worker (pop_front Worker s))\<lparr>owns_lock := False\<rparr>)) (\<lambda>s1.
             and_then (CServiceFunction_Release f s1) (\<lambda>s2.
             Inr (s2\<lparr>pc := LoopTest\<rparr>)))))"

text \<open>
  One atomic step of the thread running \<open>Wait\<close> (lines 129 to 170); \<open>None\<close> when it
  cannot step (it waits for the mutex, it is blocked in the condition wait and the
  predicate is false, or it has returned).
  \<^item> At \<open>Entry\<close> it takes the mutex (line 131).
  \<^item> At \<open>LoopTest\<close> it reads \<open>m_bWork\<close> (line 133). When the flag is set it takes the
    mutex unless the lock owns it (lines 135 to 138) and enters the wait, which returns
    at once when the predicate holds and otherwise gives the mutex up and blocks. When
    the flag is clear it leaves the loop and calls \<open>lock.unlock()\<close> (line 168), which
    throws \<open>boost::lock_error\<close> when the lock does not own the mutex, as is the case
    after an iteration that ran a task.
  \<^item> At \<open>CondWait\<close> it wakes when the predicate holds, takes the mutex back and goes on
    with the iteration.
\<close>

definition Wait_step :: "state \<Rightarrow> result option" where
  "Wait_step s =
     (case pc s of
        Entry \<Rightarrow>
          map_option (\<lambda>s1. Inr (s1\<lparr>pc := LoopTest, owns_lock := True\<rparr>)) (lock Worker s)
      | LoopTest \<Rightarrow>
          (if m_bWork s then
             (case (if owns_lock s then Some s else lock Worker s) of
                None \<Rightarrow> None
              | Some s1 \<Rightarrow>
                  (if wait_predicate s1 then Some (Wait_body (s1\<lparr>owns_lock := True\<rparr>))
                   else Some (Inr ((unlock Worker s1)\<lparr>pc := CondWait, owns_lock := True\<rparr>))))
           else if owns_lock s then
             Some (SafeRelease ((unlock Worker s)\<lparr>owns_lock := False\<rparr>))
           else Some (Inl (LockError, s)))
      | CondWait \<Rightarrow>
          (if wait_predicate s then map_option Wait_body (lock Worker s) else None)
      | Exited \<Rightarrow> None)"

subsection \<open>\<open>CServiceThread\<close>: posting\<close>

definition try_lock :: "thread \<Rightarrow> state \<Rightarrow> state option" where
  "try_lock t s = (if m_Mutex s = None then Some (s\<lparr>m_Mutex := Some t\<rparr>) else None)"

text \<open>
  \<open>TryPost\<close> (lines 172 to 191), called by thread \<open>t\<close>: the returned flag and the state
  after the call.
\<close>

definition TryPost :: "thread \<Rightarrow> callable \<Rightarrow> state \<Rightarrow> bool \<times> state" where
  "TryPost t f s =
     (case try_lock t s of
        None \<Rightarrow> (False, s)
      | Some s1 \<Rightarrow>
          (True,
           unlock t
             (if \<not> m_bDeleteLater s1 \<and> m_bWork s1 then
                (case new (CServiceFunction_f f) s1 of
                   (pFunction, s2) \<Rightarrow> notify_all (push_back t pFunction s2))
              else s1)))"

text \<open>
  The three overloads of \<open>Post\<close> (lines 193 to 206, 208 to 221, 223 to 236). A call
  returns nothing; \<open>None\<close> is a caller still blocked on the mutex. The first overload
  builds the handle from the callable alone, the other two pass the hook pointer as the
  second argument, which selects the constructor of line 31.
\<close>

definition Post_f :: "thread \<Rightarrow> callable \<Rightarrow> state \<Rightarrow> state option" where
  "Post_f t f s =
     (case lock t s of
        None \<Rightarrow> None
      | Some s1 \<Rightarrow>
          Some (unlock t
             (if \<not> m_bDeleteLater s1 \<and> m_bWork s1 then
                (case new (CServiceFunction_f f) s1 of
                   (pFunction, s2) \<Rightarrow> notify_all (push_back t pFunction s2))
              else s1)))"

definition Post_f_handler :: "thread \<Rightarrow> callable \<Rightarrow> handler ptr \<Rightarrow> state \<Rightarrow> state option" where
  "Post_f_handler t f pHandler s =
     (case lock t s of
        None \<Rightarrow> None
      | Some s1 \<Rightarrow>
          Some (unlock t
             (if \<not> m_bDeleteLater s1 \<and> m_bWork s1 then
                (case new (CServiceFunction_f_handler f pHandler) s1 of
                   (pFunction, s2) \<Rightarrow> notify_all (push_back t pFunction s2))
              else s1)))"

definition Post_handler_func :: "thread \<Rightarrow> handler ptr \<Rightarrow> callable \<Rightarrow> state \<Rightarrow> state option" where
  "Post_handler_func t pHandler func s =
     (case lock t s of
        None \<Rightarrow> None
      | Some s1 \<Rightarrow>
          Some (unlock t
             (if \<not> m_bDeleteLater s1 \<and> m_bWork s1 then
                (case new (CServiceFunction_f_handler func pHandler) s1 of
                   (pFunction, s2) \<Rightarrow> notify_all (push_back t pFunction s2))
              else s1)))"

subsection \<open>Schedules\<close>

text \<open>
  The calls that threads make on one \<open>CServiceThread\<close> and the steps of its worker,
  interleaved in some order. A call that cannot proceed in the current state (a poster
  waiting for the mutex, a blocked worker) leaves the state as it is; a fault ends the
  run with the state it happened in.
\<close>

datatype call =
    CallPost thread callable
  | CallPostHandler thread callable "handler ptr"
  | CallPostHandlerFunc thread "handler ptr" callable
  | CallTryPost thread callable
  | CallRelease thread
  | CallReleaseAfterWork thread
  | WorkerStep

definition or_stay :: "state \<Rightarrow> state option \<Rightarrow> result" where
  "or_stay s r = (case r of None \<Rightarrow> Inr s | Some s1 \<Rightarrow> Inr s1)"

fun exec :: "call \<Rightarrow> state \<Rightarrow> result" where
  "exec (CallPost t f) s = or_stay s (Post_f t f s)"
| "exec (CallPostHandler t f pHandler) s = or_stay s (Post_f_handler t f pHandler s)"
| "exec (CallPostHandlerFunc t pHandler func) s = or_stay s (Post_handler_func t pHandler func s)"
| "exec (CallTryPost t f) s = Inr (snd (TryPost t f s))"
| "exec (CallRelease t) s = Inr (CServiceThread_Release t s)"
| "exec (CallReleaseAfterWork t) s = Inr (ReleaseAfterWork t s)"
| "exec WorkerStep s = (case Wait_step s of None \<Rightarrow> Inr s | Some r \<Rightarrow> r)"

fun run :: "call list \<Rightarrow> state \<Rightarrow> result" where
  "run [] s = Inr s"
| "run (c # cs) s = and_then (exec c s) (run cs)"

text \<open>The state a run ends in, and the fault that ended it, if any.\<close>

definition final :: "result \<Rightarrow> state" where
  "final r = (case r of Inl (e, s) \<Rightarrow> s | Inr s \<Rightarrow> s)"

definition fault_of :: "result \<Rightarrow> fault option" where
  "fault_of r = (case r of Inl (e, s) \<Rightarrow> Some e | Inr s \<Rightarrow> None)"

subsection \<open>Notions used in the statements\<close>

text \<open>Every recorded write was made by a thread holding the mutex.\<close>

definition guarded :: "(thread \<times> shared \<times> bool) list \<Rightarrow> bool" where
  "guarded ms = list_all (\<lambda>(t, v, held). held) ms"

text \<open>
  The worker's local \<open>lock.owns_lock()\<close> tells the truth at the loop test: when it is
  set, the worker is the holder of the mutex.
\<close>

definition lock_truthful :: "state \<Rightarrow> bool" where
  "lock_truthful s = (if pc s = LoopTest \<and> owns_lock s then m_Mutex s = Some Worker else True)"

text \<open>
  What \<open>Clear\<close> can have done between two states: nothing to the mutex or the worker's
  position, and some number of \<open>pop_back\<close> calls by the worker.
\<close>

definition cleared_from :: "state \<Rightarrow> state \<Rightarrow> bool" where
  "cleared_from s s' \<longleftrightarrow>
     m_Mutex s' = m_Mutex s \<and> owns_lock s' = owns_lock s \<and> pc s' = pc s \<and>
     (\<exists>k. mutations s' = mutations s @ replicate k (Worker, WorkQueue, m_Mutex s = Some Worker))"

text \<open>
  What can have happened between two states after the run-state flag was cleared: no
  event, no allocation, no change of the flag, and no growth of the queue.
\<close>

definition stopped_like :: "state \<Rightarrow> state \<Rightarrow> bool" where
  "stopped_like s s' \<longleftrightarrow>
     trace s' = trace s \<and> brk s' = brk s \<and> m_bWork s' = m_bWork s \<and>
     length (m_WorkQueue s') \<le> length (m_WorkQueue s)"

text \<open>A result with \<open>m_bBusy\<close> overwritten in its state.\<close>

definition with_busy :: "bool \<Rightarrow> result \<Rightarrow> result" where
  "with_busy b r =
     (case r of Inl (e, s) \<Rightarrow> Inl (e, s\<lparr>m_bBusy := b\<rparr>) | Inr s \<Rightarrow> Inr (s\<lparr>m_bBusy := b\<rparr>))"

text \<open>
  The events of running the handle at an address whose hook pointer is the address of a
  hook object, and whether a handle is of that kind.
\<close>

definition task_events :: "(addr \<rightharpoonup> CServiceFunction) \<Rightarrow> addr \<Rightarrow> event list" where
  "task_events h a =
     (case h a of
        None \<Rightarrow> []
      | Some obj \<Rightarrow>
          (case m_pHandler obj of
             Ptr hk \<Rightarrow> [OnCallFunction hk, ContextRun (m_Context obj), OnReturnFunction hk]
           | _ \<Rightarrow> []))"

definition hooked :: "(addr \<rightharpoonup> CServiceFunction) \<Rightarrow> addr \<Rightarrow> bool" where
  "hooked h a =
     (case h a of
        None \<Rightarrow> False
      | Some obj \<Rightarrow> (case m_pHandler obj of Ptr hk \<Rightarrow> True | _ \<Rightarrow> False))"

text \<open>
  The worker is between two iterations or blocked in the wait, nobody holds the mutex,
  and the run-state flag is set.
\<close>

definition idle :: "state \<Rightarrow> bool" where
  "idle s \<longleftrightarrow>
     (pc s = CondWait \<or> (pc s = LoopTest \<and> \<not> owns_lock s)) \<and> m_Mutex s = None \<and> m_bWork s"

section \<open>Properties\<close>

declare Clear.simps [simp del]

lemma final_simps [simp]: "final (Inr s) = s" "final (Inl (e, s)) = s"
  by (simp_all add: final_def)

lemma fault_of_simps [simp]: "fault_of (Inr s) = None" "fault_of (Inl (e, s)) = Some e"
  by (simp_all add: fault_of_def)

subsection \<open>Running a task handle\<close>

lemma Run_with_hook:
  "heap s this = Some obj \<Longrightarrow> m_pHandler obj = Ptr h \<Longrightarrow>
   CServiceFunction_Run this s =
     Inr (s\<lparr>trace := trace s @
            [OnCallFunction h, ContextRun (m_Context obj), OnReturnFunction h]\<rparr>)"
  by (simp add: CServiceFunction_Run_def call_handler_def and_then_def emit_def)

lemma Release_keeps_trace:
  "trace (final (CServiceFunction_Release this s)) = trace s"
  by (simp add: CServiceFunction_Release_def final_def split: option.splits)

text \<open>
  C1. With a hook, \<open>Run\<close> calls the "before" callback, the callable and the "after"
  callback, once each and in this order (\<open>Run_with_hook\<close>), and releasing a handle calls
  nothing (\<open>Release_keeps_trace\<close>). Without a hook, \<open>Run\<close> is specified to run the
  callable alone. The handle that \<open>Post(f)\<close> and \<open>TryPost(f)\<close> build has a null
  \<open>m_pHandler\<close>, and \<open>Run\<close> calls \<open>m_pHandler->OnCallFunction()\<close> with no test: on every
  such handle, in every state, it stops at the null pointer before the callable has run.
\<close>

theorem Run_without_hook_faults:
  "CServiceFunction_Run (fst (new (CServiceFunction_f f) s)) (snd (new (CServiceFunction_f f) s))
     = Inl (NullDereference, snd (new (CServiceFunction_f f) s))"
  by (simp add: CServiceFunction_Run_def call_handler_def and_then_def new_def
      CServiceFunction_f_def)

text \<open>
  C10. The four constructors with an initialiser set \<open>m_pHandler\<close> to null or to the
  pointer they are given; the constructor taking thread attributes leaves it
  indeterminate, and \<open>Run\<close> on a handle built by it reads that indeterminate pointer. The
  posting operations use only the first two.
\<close>

theorem constructors_hook_reference:
  "m_pHandler (CServiceFunction_f f) = Null \<and>
   m_pHandler (CServiceFunction_f_handler f p) = p \<and>
   m_pHandler (CServiceFunction_bind f) = Null \<and>
   m_pHandler (CServiceFunction_handler_bind p f) = p \<and>
   m_pHandler (CServiceFunction_attr attr f) = Indeterminate \<and>
   CServiceFunction_Run (fst (new (CServiceFunction_attr attr f) s))
       (snd (new (CServiceFunction_attr attr f) s))
     = Inl (IndeterminateRead, snd (new (CServiceFunction_attr attr f) s))"
  by (simp add: CServiceFunction_Run_def call_handler_def and_then_def new_def
      CServiceFunction_f_def CServiceFunction_f_handler_def CServiceFunction_bind_def
      CServiceFunction_handler_bind_def CServiceFunction_attr_def)

subsection \<open>Discarding the queue\<close>

text \<open>
  \<open>Clear\<close> on a queue of one live handle frees it and empties the queue. On two or more
  it frees the front handle, drops the last pointer, and calls \<open>Release\<close> on the front
  handle again.
\<close>

lemma Clear_empty: "m_WorkQueue s = [] \<Longrightarrow> Clear s = Inr s"
  by (subst Clear.simps) simp

lemma Clear_one:
  assumes "m_WorkQueue s = [a]" and "heap s a = Some obj"
  shows "Clear s = Inr (pop_back Worker (s\<lparr>heap := (heap s)(a := None)\<rparr>))"
proof -
  let ?s1 = "pop_back Worker (s\<lparr>heap := (heap s)(a := None)\<rparr>)"
  have "Clear ?s1 = Inr ?s1"
    using assms by (subst Clear.simps) (simp add: pop_back_def written_def)
  then show ?thesis
    using assms by (subst Clear.simps) (simp add: CServiceFunction_Release_def)
qed

lemma Clear_two_or_more:
  assumes "m_WorkQueue s = a # b # rest" and "heap s a = Some obj"
  shows "Clear s = Inl (DanglingHandle a, pop_back Worker (s\<lparr>heap := (heap s)(a := None)\<rparr>))"
proof -
  let ?s1 = "pop_back Worker (s\<lparr>heap := (heap s)(a := None)\<rparr>)"
  have q: "m_WorkQueue ?s1 = a # butlast (b # rest)" and h: "heap ?s1 a = None"
    using assms by (simp_all add: pop_back_def written_def)
  have "Clear ?s1 = Inl (DanglingHandle a, ?s1)"
    using q h by (subst Clear.simps) (simp add: CServiceFunction_Release_def)
  then show ?thesis
    using assms by (subst Clear.simps) (simp add: CServiceFunction_Release_def)
qed

text \<open>
  C2. Two tasks are posted to an idle worker and \<open>Release\<close> is called; the worker wakes
  and destroys itself. \<open>Clear\<close> frees handle 0, removes the pointer to handle 1 from the
  back of the queue, and calls \<open>Release\<close> on the freed handle 0 a second time; handle 1
  is never freed. Neither handle is executed.
\<close>

theorem Clear_releases_front_twice:
  "fault_of (run [WorkerStep, WorkerStep, CallPostHandler (Producer 0) 7 (Ptr 1),
       CallPostHandler (Producer 0) 8 (Ptr 2), CallRelease (Producer 0), WorkerStep]
       CServiceThread)
     = Some (DanglingHandle 0) \<and>
   m_WorkQueue (final (run [WorkerStep, WorkerStep, CallPostHandler (Producer 0) 7 (Ptr 1),
       CallPostHandler (Producer 0) 8 (Ptr 2), CallRelease (Producer 0), WorkerStep]
       CServiceThread))
     = [0] \<and>
   heap (final (run [WorkerStep, WorkerStep, CallPostHandler (Producer 0) 7 (Ptr 1),
       CallPostHandler (Producer 0) 8 (Ptr 2), CallRelease (Producer 0), WorkerStep]
       CServiceThread)) 0
     = None \<and>
   heap (final (run [WorkerStep, WorkerStep, CallPostHandler (Producer 0) 7 (Ptr 1),
       CallPostHandler (Producer 0) 8 (Ptr 2), CallRelease (Producer 0), WorkerStep]
       CServiceThread)) 1
     = Some (CServiceFunction_f_handler 8 (Ptr 2)) \<and>
   trace (final (run [WorkerStep, WorkerStep, CallPostHandler (Producer 0) 7 (Ptr 1),
       CallPostHandler (Producer 0) 8 (Ptr 2), CallRelease (Producer 0), WorkerStep]
       CServiceThread))
     = []"
  by (simp add: fault_of_def final_def CServiceThread_def Post_f_handler_def lock_def unlock_def
      new_def push_back_def written_def notify_all_def or_stay_def and_then_def
      CServiceThread_Release_def Wait_step_def wait_predicate_def Wait_body_def SafeRelease_def
      Clear.simps CServiceFunction_Release_def pop_back_def)

subsection \<open>Posting\<close>

lemma relock_free: "m_Mutex s = None \<Longrightarrow> s\<lparr>m_Mutex := Some t\<rparr>\<lparr>m_Mutex := None\<rparr> = s"
  by (cases s) simp

lemma Post_f_shutdown:
  "\<not> m_bWork s \<or> m_bDeleteLater s \<Longrightarrow>
   Post_f t f s = (if m_Mutex s = None then Some s else None)"
  by (auto simp: Post_f_def lock_def unlock_def relock_free)

lemma Post_f_handler_shutdown:
  "\<not> m_bWork s \<or> m_bDeleteLater s \<Longrightarrow>
   Post_f_handler t f pHandler s = (if m_Mutex s = None then Some s else None)"
  by (auto simp: Post_f_handler_def lock_def unlock_def relock_free)

lemma Post_handler_func_shutdown:
  "\<not> m_bWork s \<or> m_bDeleteLater s \<Longrightarrow>
   Post_handler_func t pHandler f s = (if m_Mutex s = None then Some s else None)"
  by (auto simp: Post_handler_func_def lock_def unlock_def relock_free)

lemma TryPost_shutdown:
  "\<not> m_bWork s \<or> m_bDeleteLater s \<Longrightarrow> snd (TryPost t f s) = s"
  by (auto simp: TryPost_def try_lock_def unlock_def relock_free)

text \<open>
  C6. Once \<open>m_bWork\<close> is clear or \<open>m_bDeleteLater\<close> is set, each overload of \<open>Post\<close>
  returns with the state exactly as it found it (no handle allocated, queue and flags
  unchanged); while another thread holds the mutex the caller waits, and nothing changes
  either. \<open>Post\<close> has no result through which an error could be reported.
\<close>

theorem Post_after_shutdown_is_noop:
  assumes "\<not> m_bWork s \<or> m_bDeleteLater s"
  shows "Post_f t f s = (if m_Mutex s = None then Some s else None) \<and>
         Post_f_handler t f pHandler s = (if m_Mutex s = None then Some s else None) \<and>
         Post_handler_func t pHandler f s = (if m_Mutex s = None then Some s else None)"
  using assms
  by (auto simp: Post_f_def Post_f_handler_def Post_handler_func_def lock_def unlock_def
      relock_free)

theorem Post_after_shutdown_is_noop_witness:
  "m_bWork (CServiceThread_Release (Producer 0) CServiceThread) = False \<and>
   Post_f (Producer 1) 7 (CServiceThread_Release (Producer 0) CServiceThread)
     = Some (CServiceThread_Release (Producer 0) CServiceThread) \<and>
   Post_f_handler (Producer 1) 7 (Ptr 3) (ReleaseAfterWork (Producer 0) CServiceThread)
     = Some (ReleaseAfterWork (Producer 0) CServiceThread)"
  using Post_after_shutdown_is_noop
          [of "CServiceThread_Release (Producer 0) CServiceThread" "Producer 1" 7]
        Post_after_shutdown_is_noop
          [of "ReleaseAfterWork (Producer 0) CServiceThread" "Producer 1" 7 "Ptr 3"]
  by (simp add: CServiceThread_Release_def ReleaseAfterWork_def CServiceThread_def
      notify_all_def written_def)

text \<open>
  C7. The flag \<open>TryPost\<close> returns is true exactly when \<open>try_lock\<close> succeeded. When it
  failed, the state is untouched; when it succeeded during either shutdown mode, the
  flag is true and the state is untouched as well; when it succeeded on a running
  instance, the flag is true and one handle has been allocated and appended.
\<close>

theorem TryPost_returns_lock_acquired:
  "fst (TryPost t f s) = (try_lock t s \<noteq> None) \<and>
   (try_lock t s = None \<longrightarrow> TryPost t f s = (False, s)) \<and>
   (try_lock t s \<noteq> None \<and> (m_bDeleteLater s \<or> \<not> m_bWork s) \<longrightarrow> TryPost t f s = (True, s)) \<and>
   (try_lock t s \<noteq> None \<and> \<not> m_bDeleteLater s \<and> m_bWork s \<longrightarrow>
      TryPost t f s =
        (True, s\<lparr>m_WorkQueue := m_WorkQueue s @ [brk s],
                 heap := (heap s)(brk s \<mapsto> CServiceFunction_f f), brk := Suc (brk s),
                 mutations := mutations s @ [(t, WorkQueue, True)]\<rparr>))"
  by (cases s) (auto simp: TryPost_def try_lock_def unlock_def new_def push_back_def written_def
      notify_all_def)

theorem TryPost_returns_lock_acquired_witness:
  "TryPost (Producer 0) 7 (CServiceThread\<lparr>m_Mutex := Some Worker\<rparr>)
     = (False, CServiceThread\<lparr>m_Mutex := Some Worker\<rparr>) \<and>
   TryPost (Producer 0) 7 (CServiceThread_Release (Producer 1) CServiceThread)
     = (True, CServiceThread_Release (Producer 1) CServiceThread) \<and>
   fst (TryPost (Producer 0) 7 CServiceThread) = True \<and>
   m_WorkQueue (snd (TryPost (Producer 0) 7 CServiceThread)) = [0]"
  using TryPost_returns_lock_acquired [of "Producer 0" 7 "CServiceThread\<lparr>m_Mutex := Some Worker\<rparr>"]
        TryPost_returns_lock_acquired
          [of "Producer 0" 7 "CServiceThread_Release (Producer 1) CServiceThread"]
        TryPost_returns_lock_acquired [of "Producer 0" 7 CServiceThread]
  by (simp add: try_lock_def CServiceThread_def CServiceThread_Release_def notify_all_def
      written_def)

subsection \<open>After the run-state flag is cleared\<close>

lemma stopped_like_refl [simp]: "stopped_like s s"
  by (simp add: stopped_like_def)

lemma stopped_like_trans: "stopped_like s s1 \<Longrightarrow> stopped_like s1 s2 \<Longrightarrow> stopped_like s s2"
  by (auto simp: stopped_like_def)

lemma Clear_stopped_like: "stopped_like s (final (Clear s))"
proof (induction s rule: Clear.induct)
  case (1 s)
  show ?case
  proof (cases "m_WorkQueue s = []")
    case True
    then show ?thesis by (simp add: Clear_empty)
  next
    case False
    show ?thesis
    proof (cases "CServiceFunction_Release (m_WorkQueue s ! 0) s")
      case (Inl a)
      then show ?thesis
        using False
        by (subst Clear.simps)
           (auto simp: CServiceFunction_Release_def split: option.splits)
    next
      case (Inr s1)
      then have "stopped_like s (pop_back Worker s1)"
        by (auto simp: CServiceFunction_Release_def pop_back_def written_def stopped_like_def
            split: option.splits)
      moreover have "stopped_like (pop_back Worker s1) (final (Clear (pop_back Worker s1)))"
        using 1 False Inr by simp
      ultimately show ?thesis
        using False Inr by (subst Clear.simps) (auto intro: stopped_like_trans)
    qed
  qed
qed

lemma SafeRelease_stopped_like: "stopped_like s (final (SafeRelease s))"
  using Clear_stopped_like [of s]
  by (cases "Clear s") (auto simp: SafeRelease_def and_then_def stopped_like_def)

lemma SafeRelease_unlock_stopped_like:
  "stopped_like s (final (SafeRelease ((unlock Worker s)\<lparr>owns_lock := False\<rparr>)))"
  using SafeRelease_stopped_like [of "(unlock Worker s)\<lparr>owns_lock := False\<rparr>"]
  by (simp add: stopped_like_def unlock_def)

lemma Wait_body_stopped:
  "\<not> m_bWork s \<Longrightarrow> stopped_like s (final (Wait_body s))"
  by (simp add: Wait_body_def SafeRelease_unlock_stopped_like)

lemma lock_stopped_like: "lock t s = Some s1 \<Longrightarrow> stopped_like s s1"
  by (auto simp: lock_def stopped_like_def split: if_splits)

lemma Wait_step_stopped:
  assumes "\<not> m_bWork s" and "Wait_step s = Some r"
  shows "stopped_like s (final r)"
proof (cases "pc s")
  case Entry
  with assms show ?thesis
    by (auto simp: Wait_step_def lock_def stopped_like_def split: if_splits)
next
  case LoopTest
  with assms show ?thesis
    by (auto simp: Wait_step_def SafeRelease_unlock_stopped_like split: if_splits)
next
  case CondWait
  with assms obtain s1 where l: "lock Worker s = Some s1" and r: "r = Wait_body s1"
    by (auto simp: Wait_step_def split: if_splits)
  from l assms have "\<not> m_bWork s1" by (auto simp: lock_def split: if_splits)
  then have "stopped_like s1 (final (Wait_body s1))" by (rule Wait_body_stopped)
  with lock_stopped_like [OF l] r show ?thesis by (auto intro: stopped_like_trans)
next
  case Exited
  with assms show ?thesis by (simp add: Wait_step_def)
qed

lemma exec_stopped:
  assumes "\<not> m_bWork s"
  shows "stopped_like s (final (exec c s))"
proof (cases c)
  case WorkerStep
  then show ?thesis
    using Wait_step_stopped [OF assms]
    by (cases "Wait_step s") auto
qed (use assms in \<open>auto simp: or_stay_def Post_f_shutdown Post_f_handler_shutdown
      Post_handler_func_shutdown TryPost_shutdown stopped_like_def CServiceThread_Release_def
      ReleaseAfterWork_def notify_all_def written_def\<close>)

lemma run_stopped:
  "\<not> m_bWork s \<Longrightarrow> stopped_like s (final (run cs s))"
proof (induction cs arbitrary: s)
  case Nil
  then show ?case by simp
next
  case (Cons c cs)
  show ?case
  proof (cases "exec c s")
    case (Inl a)
    then show ?thesis
      using exec_stopped [OF Cons.prems, of c] by (cases a) (simp add: and_then_def)
  next
    case (Inr s1)
    then have 1: "stopped_like s s1"
      using exec_stopped [OF Cons.prems, of c] by simp
    then have "\<not> m_bWork s1" using Cons.prems by (simp add: stopped_like_def)
    then have "stopped_like s1 (final (run cs s1))" by (rule Cons.IH)
    with 1 Inr show ?thesis by (auto simp: and_then_def intro: stopped_like_trans)
  qed
qed

text \<open>
  C5. \<open>Release\<close> clears \<open>m_bWork\<close>. From the state it leaves, whatever calls and worker
  steps follow in whatever order, and whether the run ends in a fault or not: no hook
  callback and no callable runs, no handle is allocated, the queue does not grow, and
  the flag stays clear. (A worker step is atomic in the model, so a task that was being
  run when \<open>Release\<close> was called has finished before.)
\<close>

theorem no_execution_after_Release:
  "trace (final (run cs (CServiceThread_Release t s))) = trace s \<and>
   brk (final (run cs (CServiceThread_Release t s))) = brk s \<and>
   length (m_WorkQueue (final (run cs (CServiceThread_Release t s)))) \<le> length (m_WorkQueue s) \<and>
   \<not> m_bWork (final (run cs (CServiceThread_Release t s)))"
proof -
  have "\<not> m_bWork (CServiceThread_Release t s)"
    by (simp add: CServiceThread_Release_def notify_all_def written_def)
  from run_stopped [OF this, of cs] show ?thesis
    by (simp add: stopped_like_def CServiceThread_Release_def notify_all_def written_def)
qed


subsection \<open>The busy flag\<close>

lemma with_busy_simps [simp]:
  "with_busy b (Inr s) = Inr (s\<lparr>m_bBusy := b\<rparr>)"
  "with_busy b (Inl (e, s)) = Inl (e, s\<lparr>m_bBusy := b\<rparr>)"
  by (simp_all add: with_busy_def)

lemma with_busy_and_then:
  "(\<And>s. k (s\<lparr>m_bBusy := b\<rparr>) = with_busy b (k s)) \<Longrightarrow>
   and_then (with_busy b r) k = with_busy b (and_then r k)"
  by (cases r) (auto simp: and_then_def)

lemma Run_busy:
  "CServiceFunction_Run this (s\<lparr>m_bBusy := b\<rparr>) = with_busy b (CServiceFunction_Run this s)"
  by (simp add: CServiceFunction_Run_def call_handler_def and_then_def emit_def
      split: option.splits ptr.splits)

lemma Release_busy:
  "CServiceFunction_Release this (s\<lparr>m_bBusy := b\<rparr>) = with_busy b (CServiceFunction_Release this s)"
  by (simp add: CServiceFunction_Release_def split: option.splits)

lemma pop_back_busy: "pop_back t (s\<lparr>m_bBusy := b\<rparr>) = (pop_back t s)\<lparr>m_bBusy := b\<rparr>"
  by (simp add: pop_back_def written_def)

lemma Clear_busy: "Clear (s\<lparr>m_bBusy := b\<rparr>) = with_busy b (Clear s)"
proof (induction s rule: Clear.induct)
  case (1 s)
  show ?case
  proof (cases "m_WorkQueue s = []")
    case True
    then show ?thesis by (simp add: Clear_empty)
  next
    case False
    show ?thesis
    proof (cases "CServiceFunction_Release (m_WorkQueue s ! 0) s")
      case (Inl a)
      then show ?thesis
        using False
        by (cases a) (simp add: Clear.simps [of s] Clear.simps [of "s\<lparr>m_bBusy := b\<rparr>"] Release_busy)
    next
      case (Inr s1)
      then show ?thesis
        using False 1 [OF False Inr]
        by (simp add: Clear.simps [of s] Clear.simps [of "s\<lparr>m_bBusy := b\<rparr>"] Release_busy
            pop_back_busy)
    qed
  qed
qed

lemma SafeRelease_busy: "SafeRelease (s\<lparr>m_bBusy := b\<rparr>) = with_busy b (SafeRelease s)"
  by (cases "Clear s") (auto simp: SafeRelease_def Clear_busy and_then_def)

lemma Wait_body_busy: "Wait_body (s\<lparr>m_bBusy := b\<rparr>) = with_busy b (Wait_body s)"
proof -
  have u: "\<And>s. (unlock Worker (s\<lparr>m_bBusy := b\<rparr>))\<lparr>owns_lock := False\<rparr>
             = ((unlock Worker s)\<lparr>owns_lock := False\<rparr>)\<lparr>m_bBusy := b\<rparr>"
    by (simp add: unlock_def)
  have p: "\<And>s. (unlock Worker (pop_front Worker (s\<lparr>m_bBusy := b\<rparr>)))\<lparr>owns_lock := False\<rparr>
             = ((unlock Worker (pop_front Worker s))\<lparr>owns_lock := False\<rparr>)\<lparr>m_bBusy := b\<rparr>"
    by (simp add: unlock_def pop_front_def written_def)
  have k: "\<And>f s1. and_then (CServiceFunction_Release f (s1\<lparr>m_bBusy := b\<rparr>))
                     (\<lambda>s2. Inr (s2\<lparr>pc := LoopTest\<rparr>))
             = with_busy b (and_then (CServiceFunction_Release f s1)
                     (\<lambda>s2. Inr (s2\<lparr>pc := LoopTest\<rparr>)))"
    by (simp add: Release_busy with_busy_and_then)
  show ?thesis
    by (simp add: Wait_body_def u p SafeRelease_busy Run_busy with_busy_and_then k
        split: list.splits)
qed

lemma update_busy_first:
  "s\<lparr>m_bBusy := b, owns_lock := o1\<rparr> = s\<lparr>owns_lock := o1, m_bBusy := b\<rparr>"
  "s\<lparr>m_bBusy := b, m_Mutex := m, owns_lock := o1\<rparr> = s\<lparr>m_Mutex := m, owns_lock := o1, m_bBusy := b\<rparr>"
  "s\<lparr>m_bBusy := b, m_Mutex := m\<rparr> = s\<lparr>m_Mutex := m, m_bBusy := b\<rparr>"
  by (cases s; simp)+

lemma Wait_step_busy:
  "Wait_step (s\<lparr>m_bBusy := b\<rparr>) = map_option (with_busy b) (Wait_step s)"
  by (cases "pc s")
     (auto simp: Wait_step_def lock_def wait_predicate_def unlock_def update_busy_first
        SafeRelease_busy Wait_body_busy)

lemma exec_busy: "exec c (s\<lparr>m_bBusy := b\<rparr>) = with_busy b (exec c s)"
proof (cases c)
  case WorkerStep
  then show ?thesis by (cases "Wait_step s") (simp_all add: Wait_step_busy)
qed (auto simp: or_stay_def Post_f_def Post_f_handler_def Post_handler_func_def TryPost_def
      try_lock_def lock_def unlock_def new_def push_back_def written_def notify_all_def
      CServiceThread_Release_def ReleaseAfterWork_def)

lemma run_busy: "run cs (s\<lparr>m_bBusy := b\<rparr>) = with_busy b (run cs s)"
proof (induction cs arbitrary: s)
  case Nil
  show ?case by simp
next
  case (Cons c cs)
  show ?case
    by (simp add: exec_busy with_busy_and_then Cons.IH)
qed

lemma final_with_busy: "final (with_busy b r) = (final r)\<lparr>m_bBusy := b\<rparr>"
  by (cases r) auto

lemma fault_of_with_busy: "fault_of (with_busy b r) = fault_of r"
  by (cases r) auto

lemma run_keeps_busy: "m_bBusy (final (run cs s)) = m_bBusy s"
proof -
  have "run cs (s\<lparr>m_bBusy := m_bBusy s\<rparr>) = with_busy (m_bBusy s) (run cs s)"
    by (rule run_busy)
  then have e: "run cs s = with_busy (m_bBusy s) (run cs s)"
    by simp
  have "m_bBusy (final (with_busy (m_bBusy s) (run cs s))) = m_bBusy s"
    by (simp add: final_with_busy)
  with e show ?thesis
    by (rule subst [where P = "\<lambda>r. m_bBusy (final r) = m_bBusy s", OF sym])
qed

text \<open>
  C9. The constructor sets \<open>m_bBusy\<close> to false, so it is false after every run from the
  constructed state. No run from any state writes it (its value at the end is its value
  at the start), and no run reads it: started with another value of the flag, a run ends
  in the same fault or none, in the same state but for the flag.
\<close>

theorem busy_flag_is_dead_state:
  "m_bBusy CServiceThread = False \<and>
   m_bBusy (final (run cs CServiceThread)) = False \<and>
   m_bBusy (final (run cs s)) = m_bBusy s \<and>
   final (run cs (s\<lparr>m_bBusy := b\<rparr>)) = (final (run cs s))\<lparr>m_bBusy := b\<rparr> \<and>
   fault_of (run cs (s\<lparr>m_bBusy := b\<rparr>)) = fault_of (run cs s)"
  by (simp add: run_keeps_busy run_busy final_with_busy fault_of_with_busy)
     (simp add: CServiceThread_def)


subsection \<open>Which writes hold the mutex\<close>

lemma cleared_from_refl: "cleared_from s s"
  by (auto simp: cleared_from_def intro: exI [of _ 0])

lemma cleared_from_step:
  assumes "CServiceFunction_Release a s = Inr s1"
    and "cleared_from (pop_back Worker s1) s2"
  shows "cleared_from s s2"
proof -
  from assms(1) have s1: "s1 = s\<lparr>heap := (heap s)(a := None)\<rparr>"
    by (auto simp: CServiceFunction_Release_def split: option.splits)
  from assms(2) obtain k where
    k: "mutations s2 = mutations (pop_back Worker s1) @
          replicate k (Worker, WorkQueue, m_Mutex (pop_back Worker s1) = Some Worker)"
    by (auto simp: cleared_from_def)
  have "mutations s2 = mutations s @ replicate (Suc k) (Worker, WorkQueue, m_Mutex s = Some Worker)"
    using k by (simp add: s1 pop_back_def written_def)
  then show ?thesis
    using assms(2) unfolding cleared_from_def
    by (simp only: s1 pop_back_def written_def) (auto simp del: replicate_Suc)
qed

lemma Clear_cleared_from: "cleared_from s (final (Clear s))"
proof (induction s rule: Clear.induct)
  case (1 s)
  show ?case
  proof (cases "m_WorkQueue s = []")
    case True
    then show ?thesis by (simp add: Clear_empty cleared_from_refl)
  next
    case False
    show ?thesis
    proof (cases "CServiceFunction_Release (m_WorkQueue s ! 0) s")
      case (Inl a)
      then show ?thesis
        using False
        by (subst Clear.simps)
           (auto simp: CServiceFunction_Release_def cleared_from_refl split: option.splits)
    next
      case (Inr s1)
      have "cleared_from (pop_back Worker s1) (final (Clear (pop_back Worker s1)))"
        using 1 False Inr by simp
      from cleared_from_step [OF Inr this] show ?thesis
        using False Inr by (subst Clear.simps) simp
    qed
  qed
qed

lemma SafeRelease_unlocked:
  assumes "m_Mutex s = None"
  shows "\<exists>k. mutations (final (SafeRelease s)) = mutations s @ replicate k (Worker, WorkQueue, False)"
  using Clear_cleared_from [of s] assms
  by (cases "Clear s") (auto simp: SafeRelease_def and_then_def cleared_from_def)

lemma Run_frame:
  "mutations (final (CServiceFunction_Run f s)) = mutations s"
  by (auto simp: CServiceFunction_Run_def call_handler_def and_then_def emit_def
      split: option.splits ptr.splits)

lemma Release_frame:
  "mutations (final (CServiceFunction_Release f s)) = mutations s"
  by (auto simp: CServiceFunction_Release_def split: option.splits)

lemma Wait_body_dequeue:
  assumes "m_Mutex s = Some Worker" and "m_bWork s" and "m_WorkQueue s \<noteq> []"
  shows "mutations (final (Wait_body s)) = mutations s @ [(Worker, WorkQueue, True)]"
proof -
  obtain f rest where q: "m_WorkQueue s = f # rest"
    using assms(3) by (cases "m_WorkQueue s") auto
  let ?s0 = "(unlock Worker (pop_front Worker s))\<lparr>owns_lock := False\<rparr>"
  have m0: "mutations ?s0 = mutations s @ [(Worker, WorkQueue, True)]"
    using assms(1) by (simp add: unlock_def pop_front_def written_def)
  show ?thesis
  proof (cases "CServiceFunction_Run f ?s0")
    case (Inl a)
    then show ?thesis
      using Run_frame [of f ?s0] assms q m0
      by (cases a) (simp add: Wait_body_def and_then_def)
  next
    case (Inr s1)
    then have m1: "mutations s1 = mutations s @ [(Worker, WorkQueue, True)]"
      using Run_frame [of f ?s0] m0 by simp
    show ?thesis
    proof (cases "CServiceFunction_Release f s1")
      case (Inl a)
      then show ?thesis
        using Release_frame [of f s1] assms q m1 \<open>CServiceFunction_Run f ?s0 = Inr s1\<close>
        by (cases a) (simp add: Wait_body_def and_then_def)
    next
      case (Inr s2)
      then show ?thesis
        using Release_frame [of f s1] assms q m1 \<open>CServiceFunction_Run f ?s0 = Inr s1\<close>
        by (simp add: Wait_body_def and_then_def)
    qed
  qed
qed

lemma Wait_step_dequeue:
  assumes "lock_truthful s" and "pc s \<noteq> Entry" and "m_bWork s" and "m_WorkQueue s \<noteq> []"
    and "Wait_step s = Some r"
  shows "mutations (final r) = mutations s @ [(Worker, WorkQueue, True)]"
proof (cases "pc s")
  case Entry
  with assms show ?thesis by simp
next
  case LoopTest
  show ?thesis
  proof (cases "owns_lock s")
    case True
    with LoopTest assms have "m_Mutex s = Some Worker" by (simp add: lock_truthful_def)
    then have "mutations (final (Wait_body (s\<lparr>owns_lock := True\<rparr>)))
                 = mutations (s\<lparr>owns_lock := True\<rparr>) @ [(Worker, WorkQueue, True)]"
      using assms by (intro Wait_body_dequeue) simp_all
    with True LoopTest assms show ?thesis
      by (auto simp: Wait_step_def wait_predicate_def)
  next
    case False
    with LoopTest assms obtain s1 where l: "lock Worker s = Some s1"
      by (auto simp: Wait_step_def split: option.splits)
    then have s1: "s1 = s\<lparr>m_Mutex := Some Worker\<rparr>"
      by (auto simp: lock_def split: if_splits)
    have "mutations (final (Wait_body (s1\<lparr>owns_lock := True\<rparr>)))
            = mutations (s1\<lparr>owns_lock := True\<rparr>) @ [(Worker, WorkQueue, True)]"
      using assms by (intro Wait_body_dequeue) (simp_all add: s1)
    with False LoopTest assms l show ?thesis
      by (auto simp: Wait_step_def wait_predicate_def s1)
  qed
next
  case CondWait
  with assms obtain s1 where l: "lock Worker s = Some s1" and r: "r = Wait_body s1"
    by (auto simp: Wait_step_def split: if_splits)
  from l have s1: "s1 = s\<lparr>m_Mutex := Some Worker\<rparr>"
    by (auto simp: lock_def split: if_splits)
  have "mutations (final (Wait_body s1)) = mutations s1 @ [(Worker, WorkQueue, True)]"
    using assms by (intro Wait_body_dequeue) (simp_all add: s1)
  with r show ?thesis by (simp add: s1)
next
  case Exited
  with assms show ?thesis by (simp add: Wait_step_def)
qed


lemma SafeRelease_result:
  "owns_lock (final (SafeRelease s)) = owns_lock s \<and> m_Mutex (final (SafeRelease s)) = m_Mutex s"
  using Clear_cleared_from [of s]
  by (cases "Clear s") (auto simp: SafeRelease_def and_then_def cleared_from_def)

lemma SafeRelease_Inr: "SafeRelease s = Inr s' \<Longrightarrow> pc s' = Exited"
  by (cases "Clear s") (auto simp: SafeRelease_def and_then_def)

lemma Run_final_frame:
  "owns_lock (final (CServiceFunction_Run f s)) = owns_lock s"
  by (auto simp: CServiceFunction_Run_def call_handler_def and_then_def emit_def
      split: option.splits ptr.splits)

lemma Release_final_frame:
  "owns_lock (final (CServiceFunction_Release f s)) = owns_lock s"
  by (auto simp: CServiceFunction_Release_def split: option.splits)

lemma Wait_body_owns_lock:
  assumes "wait_predicate s"
  shows "\<not> owns_lock (final (Wait_body s))"
proof (cases "(m_bDeleteLater s \<and> m_WorkQueue s = []) \<or> \<not> m_bWork s")
  case True
  then show ?thesis
    using SafeRelease_result [of "(unlock Worker s)\<lparr>owns_lock := False\<rparr>"]
    by (auto simp: Wait_body_def unlock_def)
next
  case False
  with assms obtain f rest where q: "m_WorkQueue s = f # rest"
    by (cases "m_WorkQueue s") (auto simp: wait_predicate_def)
  let ?s0 = "(unlock Worker (pop_front Worker s))\<lparr>owns_lock := False\<rparr>"
  show ?thesis
  proof (cases "CServiceFunction_Run f ?s0")
    case (Inl a)
    then show ?thesis
      using Run_final_frame [of f ?s0] False q
      by (cases a) (simp add: Wait_body_def and_then_def)
  next
    case (Inr s1)
    then have o1: "\<not> owns_lock s1"
      using Run_final_frame [of f ?s0] by simp
    show ?thesis
    proof (cases "CServiceFunction_Release f s1")
      case (Inl a)
      then show ?thesis
        using Release_final_frame [of f s1] False q o1 \<open>CServiceFunction_Run f ?s0 = Inr s1\<close>
        by (cases a) (simp add: Wait_body_def and_then_def)
    next
      case (Inr s2)
      then show ?thesis
        using Release_final_frame [of f s1] False q o1 \<open>CServiceFunction_Run f ?s0 = Inr s1\<close>
        by (simp add: Wait_body_def and_then_def)
    qed
  qed
qed

lemma Wait_body_Inr_pc:
  assumes "Wait_body s = Inr s'"
  shows "pc s' = LoopTest \<or> pc s' = Exited"
proof (cases "(m_bDeleteLater s \<and> m_WorkQueue s = []) \<or> \<not> m_bWork s")
  case True
  with assms have "SafeRelease ((unlock Worker s)\<lparr>owns_lock := False\<rparr>) = Inr s'"
    by (auto simp: Wait_body_def split: if_splits)
  then show ?thesis by (simp add: SafeRelease_Inr)
next
  case False
  with assms show ?thesis
    by (auto simp: Wait_body_def and_then_def split: list.splits sum.splits)
qed

lemma Wait_step_lock_truthful:
  assumes "lock_truthful s" and "Wait_step s = Some r"
  shows "lock_truthful (final r)"
proof (cases "pc s")
  case Entry
  with assms show ?thesis
    by (auto simp: Wait_step_def lock_def lock_truthful_def split: if_splits)
next
  case LoopTest
  show ?thesis
  proof (cases "m_bWork s")
    case True
    with LoopTest assms obtain s1 where
      s1: "(if owns_lock s then Some s else lock Worker s) = Some s1"
      by (auto simp: Wait_step_def split: option.splits)
    show ?thesis
    proof (cases "wait_predicate s1")
      case wp: True
      then have "wait_predicate (s1\<lparr>owns_lock := True\<rparr>)" by (simp add: wait_predicate_def)
      then have "\<not> owns_lock (final (Wait_body (s1\<lparr>owns_lock := True\<rparr>)))"
        by (rule Wait_body_owns_lock)
      with wp True LoopTest assms s1 show ?thesis
        by (auto simp: Wait_step_def lock_truthful_def)
    next
      case False
      with True LoopTest assms s1 show ?thesis
        by (auto simp: Wait_step_def lock_truthful_def)
    qed
  next
    case False
    with LoopTest assms show ?thesis
      using SafeRelease_result [of "(unlock Worker s)\<lparr>owns_lock := False\<rparr>"]
      by (auto simp: Wait_step_def lock_truthful_def split: if_splits)
  qed
next
  case CondWait
  with assms obtain s1 where l: "lock Worker s = Some s1" and r: "r = Wait_body s1"
    and wp: "wait_predicate s"
    by (auto simp: Wait_step_def split: if_splits)
  from l wp have "wait_predicate s1"
    by (auto simp: lock_def wait_predicate_def split: if_splits)
  then have "\<not> owns_lock (final (Wait_body s1))" by (rule Wait_body_owns_lock)
  with r show ?thesis by (simp add: lock_truthful_def)
next
  case Exited
  with assms show ?thesis by (simp add: Wait_step_def)
qed

lemma exec_lock_truthful:
  assumes "lock_truthful s"
  shows "lock_truthful (final (exec c s))"
proof (cases c)
  case WorkerStep
  then show ?thesis
    using Wait_step_lock_truthful [OF assms] assms
    by (cases "Wait_step s") auto
qed (use assms in \<open>auto simp: or_stay_def Post_f_def Post_f_handler_def Post_handler_func_def
      TryPost_def try_lock_def lock_def unlock_def new_def push_back_def written_def
      notify_all_def CServiceThread_Release_def ReleaseAfterWork_def lock_truthful_def
      split: if_splits\<close>)

lemma run_lock_truthful:
  "lock_truthful s \<Longrightarrow> lock_truthful (final (run cs s))"
proof (induction cs arbitrary: s)
  case Nil
  then show ?case by simp
next
  case (Cons c cs)
  show ?case
  proof (cases "exec c s")
    case (Inl a)
    then show ?thesis
      using exec_lock_truthful [OF Cons.prems, of c] by (cases a) (simp add: and_then_def)
  next
    case (Inr s1)
    then have "lock_truthful s1"
      using exec_lock_truthful [OF Cons.prems, of c] by simp
    then have "lock_truthful (final (run cs s1))" by (rule Cons.IH)
    with Inr show ?thesis by (simp add: and_then_def)
  qed
qed

lemma reachable_lock_truthful: "lock_truthful (final (run cs CServiceThread))"
  by (rule run_lock_truthful) (simp add: lock_truthful_def CServiceThread_def)

lemma Post_f_mutations:
  "Post_f t f s = Some s' \<Longrightarrow>
   mutations s' = mutations s @
     (if \<not> m_bDeleteLater s \<and> m_bWork s then [(t, WorkQueue, True)] else [])"
  by (auto simp: Post_f_def lock_def unlock_def new_def push_back_def written_def notify_all_def
      split: if_splits)

lemma Post_f_handler_mutations:
  "Post_f_handler t f p s = Some s' \<Longrightarrow>
   mutations s' = mutations s @
     (if \<not> m_bDeleteLater s \<and> m_bWork s then [(t, WorkQueue, True)] else [])"
  by (auto simp: Post_f_handler_def lock_def unlock_def new_def push_back_def written_def
      notify_all_def split: if_splits)

lemma Post_handler_func_mutations:
  "Post_handler_func t p f s = Some s' \<Longrightarrow>
   mutations s' = mutations s @
     (if \<not> m_bDeleteLater s \<and> m_bWork s then [(t, WorkQueue, True)] else [])"
  by (auto simp: Post_handler_func_def lock_def unlock_def new_def push_back_def written_def
      notify_all_def split: if_splits)

lemma TryPost_mutations:
  "mutations (snd (TryPost t f s)) = mutations s @
     (if m_Mutex s = None \<and> \<not> m_bDeleteLater s \<and> m_bWork s then [(t, WorkQueue, True)] else [])"
  by (auto simp: TryPost_def try_lock_def unlock_def new_def push_back_def written_def
      notify_all_def split: if_splits)

lemma blocked_in_wait:
  "pc s = CondWait \<Longrightarrow> (Wait_step s = None) = (\<not> wait_predicate s \<or> m_Mutex s \<noteq> None)"
  by (auto simp: Wait_step_def lock_def)

lemma enters_wait:
  assumes "Wait_step s = Some (Inr s')" and "pc s' = CondWait"
  shows "\<not> wait_predicate s'"
proof (cases "pc s")
  case Entry
  with assms show ?thesis by (auto simp: Wait_step_def lock_def split: if_splits)
next
  case LoopTest
  show ?thesis
  proof (cases "m_bWork s")
    case True
    with LoopTest assms obtain s1 where
      s1: "(if owns_lock s then Some s else lock Worker s) = Some s1"
      by (auto simp: Wait_step_def split: option.splits)
    show ?thesis
    proof (cases "wait_predicate s1")
      case wp: True
      with True LoopTest assms s1 have "Wait_body (s1\<lparr>owns_lock := True\<rparr>) = Inr s'"
        by (auto simp: Wait_step_def)
      from Wait_body_Inr_pc [OF this] assms show ?thesis by simp
    next
      case False
      with True LoopTest assms s1 show ?thesis
        by (auto simp: Wait_step_def wait_predicate_def unlock_def)
    qed
  next
    case False
    with LoopTest assms show ?thesis
      using SafeRelease_Inr [of "(unlock Worker s)\<lparr>owns_lock := False\<rparr>" s']
      by (auto simp: Wait_step_def split: if_splits)
  qed
next
  case CondWait
  with assms obtain s1 where "Wait_body s1 = Inr s'"
    by (auto simp: Wait_step_def split: if_splits)
  from Wait_body_Inr_pc [OF this] assms show ?thesis by simp
next
  case Exited
  with assms show ?thesis by (simp add: Wait_step_def)
qed

text \<open>
  C8, read as "every write of the queue and of the two flags is made with the mutex
  held", fails: \<open>Release\<close>, called on a freshly constructed instance by a thread that
  holds nothing, writes \<open>m_bWork\<close> without the mutex.
\<close>

theorem Release_writes_without_the_mutex:
  "\<not> guarded (mutations (final (run [CallRelease (Producer 0)] CServiceThread)))"
  by (simp add: guarded_def CServiceThread_Release_def CServiceThread_def notify_all_def
      written_def and_then_def)

text \<open>
  C8, amended. Each overload of \<open>Post\<close>, and \<open>TryPost\<close>, writes the queue at most once,
  holding the mutex. In every state reachable from the constructor, the worker step that
  takes a task from the queue writes the queue once, holding the mutex. The worker's
  only wait is on \<open>wait_predicate\<close>: blocked in the wait it cannot step exactly while
  the predicate is false (or the mutex is taken), it enters the blocked position only
  when the predicate is false, and the predicate is "queue not empty, or deferred stop,
  or not running". \<open>Release\<close> and \<open>ReleaseAfterWork\<close> write their flag once and leave
  the mutex alone, so the write is made under the mutex only when the caller happens to
  hold it. The \<open>Clear\<close> of the self-destruction runs after \<open>lock.unlock()\<close>: all of
  its writes of the queue are made without the mutex.
\<close>

theorem queue_writes_hold_the_mutex:
  "(Post_f t f s = Some s' \<longrightarrow>
      mutations s' = mutations s @
        (if \<not> m_bDeleteLater s \<and> m_bWork s then [(t, WorkQueue, True)] else [])) \<and>
   (Post_f_handler t f p s = Some s' \<longrightarrow>
      mutations s' = mutations s @
        (if \<not> m_bDeleteLater s \<and> m_bWork s then [(t, WorkQueue, True)] else [])) \<and>
   (Post_handler_func t p f s = Some s' \<longrightarrow>
      mutations s' = mutations s @
        (if \<not> m_bDeleteLater s \<and> m_bWork s then [(t, WorkQueue, True)] else [])) \<and>
   mutations (snd (TryPost t f s)) = mutations s @
     (if m_Mutex s = None \<and> \<not> m_bDeleteLater s \<and> m_bWork s then [(t, WorkQueue, True)]
      else []) \<and>
   (pc (final (run cs CServiceThread)) \<noteq> Entry \<and> m_bWork (final (run cs CServiceThread)) \<and>
    m_WorkQueue (final (run cs CServiceThread)) \<noteq> [] \<and>
    Wait_step (final (run cs CServiceThread)) = Some r \<longrightarrow>
      mutations (final r) =
        mutations (final (run cs CServiceThread)) @ [(Worker, WorkQueue, True)]) \<and>
   (pc s = CondWait \<longrightarrow> (Wait_step s = None) = (\<not> wait_predicate s \<or> m_Mutex s \<noteq> None)) \<and>
   (Wait_step s = Some (Inr s') \<and> pc s' = CondWait \<longrightarrow> \<not> wait_predicate s') \<and>
   wait_predicate s = (m_WorkQueue s \<noteq> [] \<or> m_bDeleteLater s \<or> \<not> m_bWork s) \<and>
   mutations (CServiceThread_Release t s) = mutations s @ [(t, WorkFlag, m_Mutex s = Some t)] \<and>
   m_Mutex (CServiceThread_Release t s) = m_Mutex s \<and>
   mutations (ReleaseAfterWork t s) = mutations s @ [(t, DeleteLaterFlag, m_Mutex s = Some t)] \<and>
   m_Mutex (ReleaseAfterWork t s) = m_Mutex s \<and>
   (\<exists>k. mutations (final (SafeRelease ((unlock Worker s)\<lparr>owns_lock := False\<rparr>))) =
          mutations s @ replicate k (Worker, WorkQueue, False))"
proof -
  have dequeue:
    "pc (final (run cs CServiceThread)) \<noteq> Entry \<and> m_bWork (final (run cs CServiceThread)) \<and>
     m_WorkQueue (final (run cs CServiceThread)) \<noteq> [] \<and>
     Wait_step (final (run cs CServiceThread)) = Some r \<longrightarrow>
       mutations (final r) =
         mutations (final (run cs CServiceThread)) @ [(Worker, WorkQueue, True)]"
    using Wait_step_dequeue [OF reachable_lock_truthful [of cs], of r] by blast
  have clear:
    "\<exists>k. mutations (final (SafeRelease ((unlock Worker s)\<lparr>owns_lock := False\<rparr>))) =
          mutations s @ replicate k (Worker, WorkQueue, False)"
    using SafeRelease_unlocked [of "(unlock Worker s)\<lparr>owns_lock := False\<rparr>"]
    by (simp add: unlock_def)
  have flags:
    "mutations (CServiceThread_Release t s) = mutations s @ [(t, WorkFlag, m_Mutex s = Some t)]"
    "m_Mutex (CServiceThread_Release t s) = m_Mutex s"
    "mutations (ReleaseAfterWork t s) = mutations s @ [(t, DeleteLaterFlag, m_Mutex s = Some t)]"
    "m_Mutex (ReleaseAfterWork t s) = m_Mutex s"
    by (simp_all add: CServiceThread_Release_def ReleaseAfterWork_def notify_all_def written_def)
  have wait:
    "pc s = CondWait \<longrightarrow> (Wait_step s = None) = (\<not> wait_predicate s \<or> m_Mutex s \<noteq> None)"
    "Wait_step s = Some (Inr s') \<and> pc s' = CondWait \<longrightarrow> \<not> wait_predicate s'"
    "wait_predicate s = (m_WorkQueue s \<noteq> [] \<or> m_bDeleteLater s \<or> \<not> m_bWork s)"
    using blocked_in_wait [of s] enters_wait [of s s']
    by (blast, blast, simp add: wait_predicate_def)
  have posts:
    "Post_f t f s = Some s' \<longrightarrow>
       mutations s' = mutations s @
         (if \<not> m_bDeleteLater s \<and> m_bWork s then [(t, WorkQueue, True)] else [])"
    "Post_f_handler t f p s = Some s' \<longrightarrow>
       mutations s' = mutations s @
         (if \<not> m_bDeleteLater s \<and> m_bWork s then [(t, WorkQueue, True)] else [])"
    "Post_handler_func t p f s = Some s' \<longrightarrow>
       mutations s' = mutations s @
         (if \<not> m_bDeleteLater s \<and> m_bWork s then [(t, WorkQueue, True)] else [])"
    using Post_f_mutations [of t f s s'] Post_f_handler_mutations [of t f p s s']
      Post_handler_func_mutations [of t p f s s']
    by blast+
  from posts TryPost_mutations [of t f s] dequeue wait flags clear
  show ?thesis by (intro conjI)
qed

theorem queue_writes_hold_the_mutex_witness:
  "mutations (the (Post_f (Producer 0) 7 CServiceThread)) = [(Producer 0, WorkQueue, True)] \<and>
   mutations (the (Post_f_handler (Producer 0) 7 (Ptr 1) CServiceThread))
     = [(Producer 0, WorkQueue, True)] \<and>
   mutations (the (Post_handler_func (Producer 0) (Ptr 1) 7 CServiceThread))
     = [(Producer 0, WorkQueue, True)] \<and>
   mutations (final (the (Wait_step (final (run [WorkerStep, WorkerStep,
       CallPostHandler (Producer 0) 7 (Ptr 1)] CServiceThread)))))
     = [(Producer 0, WorkQueue, True), (Worker, WorkQueue, True)] \<and>
   pc (final (run [WorkerStep, WorkerStep] CServiceThread)) = CondWait \<and>
   Wait_step (final (run [WorkerStep, WorkerStep] CServiceThread)) = None \<and>
   wait_predicate (final (run [WorkerStep, WorkerStep] CServiceThread)) = False \<and>
   mutations (CServiceThread_Release (Producer 0) CServiceThread)
     = [(Producer 0, WorkFlag, False)]"
  using queue_writes_hold_the_mutex
          [where t = "Producer 0" and f = 7 and p = "Ptr 1" and s = CServiceThread
             and s' = "the (Post_f (Producer 0) 7 CServiceThread)"
             and cs = "[WorkerStep, WorkerStep, CallPostHandler (Producer 0) 7 (Ptr 1)]"
             and r = "the (Wait_step (final (run [WorkerStep, WorkerStep,
                        CallPostHandler (Producer 0) 7 (Ptr 1)] CServiceThread)))"]
        queue_writes_hold_the_mutex
          [where t = "Producer 0" and f = 7 and p = "Ptr 1" and s = CServiceThread
             and s' = "the (Post_f_handler (Producer 0) 7 (Ptr 1) CServiceThread)"
             and cs = "[]" and r = "Inr CServiceThread"]
        queue_writes_hold_the_mutex
          [where t = "Producer 0" and f = 7 and p = "Ptr 1"
             and s = "final (run [WorkerStep, WorkerStep] CServiceThread)"
             and s' = "final (run [WorkerStep, WorkerStep] CServiceThread)"
             and cs = "[]" and r = "Inr CServiceThread"]
        queue_writes_hold_the_mutex
          [where t = "Producer 0" and f = 7 and p = "Ptr 1"
             and s = "final (run [WorkerStep] CServiceThread)"
             and s' = "final (run [WorkerStep, WorkerStep] CServiceThread)"
             and cs = "[]" and r = "Inr CServiceThread"]
  by (simp add: CServiceThread_def Post_f_def Post_f_handler_def Post_handler_func_def lock_def
      unlock_def new_def push_back_def pop_front_def written_def notify_all_def or_stay_def
      and_then_def Wait_step_def wait_predicate_def Wait_body_def CServiceFunction_Run_def
      CServiceFunction_Release_def call_handler_def emit_def CServiceFunction_f_handler_def
      CServiceThread_Release_def)

subsection \<open>The order of execution\<close>

text \<open>
  When every queued handle has a hook: an idle worker takes the handle at the front,
  runs it and frees it; as many steps as there are handles run them all, each once, in
  the order of the queue; and when the deferred stop is set, one more step ends the
  worker with the queue empty.
\<close>

lemma Wait_body_runs_front:
  assumes "m_bWork s" and "m_WorkQueue s = a # rest" and "hooked (heap s) a"
  shows "Wait_body s =
           Inr (s\<lparr>m_WorkQueue := rest, m_Mutex := None, owns_lock := False, pc := LoopTest,
                  heap := (heap s)(a := None),
                  trace := trace s @ task_events (heap s) a,
                  mutations := mutations s @ [(Worker, WorkQueue, m_Mutex s = Some Worker)]\<rparr>)"
proof -
  from assms(3) obtain obj hk where o: "heap s a = Some obj" and h: "m_pHandler obj = Ptr hk"
    by (auto simp: hooked_def split: option.splits ptr.splits)
  let ?s0 = "(unlock Worker (pop_front Worker s))\<lparr>owns_lock := False\<rparr>"
  have "heap ?s0 a = Some obj"
    using o by (simp add: unlock_def pop_front_def written_def)
  from Run_with_hook [OF this h] show ?thesis
    using assms(1,2) o h
    by (cases s)
       (simp add: Wait_body_def and_then_def CServiceFunction_Release_def unlock_def
          pop_front_def written_def task_events_def)
qed

lemma worker_runs_front:
  assumes "idle s" and "m_WorkQueue s = a # rest" and "hooked (heap s) a"
  shows "Wait_step s =
           Some (Inr (s\<lparr>m_WorkQueue := rest, m_Mutex := None, owns_lock := False, pc := LoopTest,
                  heap := (heap s)(a := None),
                  trace := trace s @ task_events (heap s) a,
                  mutations := mutations s @ [(Worker, WorkQueue, True)]\<rparr>))"
proof -
  let ?s1 = "s\<lparr>m_Mutex := Some Worker\<rparr>"
  have b: "Wait_body (?s1\<lparr>owns_lock := b\<rparr>) =
           Inr (s\<lparr>m_WorkQueue := rest, m_Mutex := None, owns_lock := False, pc := LoopTest,
                  heap := (heap s)(a := None),
                  trace := trace s @ task_events (heap s) a,
                  mutations := mutations s @ [(Worker, WorkQueue, True)]\<rparr>)" for b
    using assms Wait_body_runs_front [of "?s1\<lparr>owns_lock := b\<rparr>" a rest]
    by (simp add: idle_def)
  have b': "Wait_body ?s1 =
           Inr (s\<lparr>m_WorkQueue := rest, m_Mutex := None, owns_lock := False, pc := LoopTest,
                  heap := (heap s)(a := None),
                  trace := trace s @ task_events (heap s) a,
                  mutations := mutations s @ [(Worker, WorkQueue, True)]\<rparr>)"
    using assms Wait_body_runs_front [of "?s1" a rest]
    by (simp add: idle_def)
  from assms(1) consider "pc s = CondWait" | "pc s = LoopTest" "\<not> owns_lock s"
    by (auto simp: idle_def)
  then show ?thesis
  proof cases
    case 1
    with assms b' show ?thesis
      by (simp add: Wait_step_def wait_predicate_def lock_def idle_def)
  next
    case 2
    with assms b [of True] show ?thesis
      by (simp add: Wait_step_def wait_predicate_def lock_def idle_def)
  qed
qed

lemma run_append: "run (xs @ ys) s = and_then (run xs s) (run ys)"
  by (induction xs arbitrary: s) (auto simp: and_then_def split: sum.splits)

lemma task_events_other: "b \<noteq> a \<Longrightarrow> task_events (h(a := None)) b = task_events h b"
  by (simp add: task_events_def)

lemma worker_drains_in_order:
  assumes "idle s" and "distinct (m_WorkQueue s)" and "list_all (hooked (heap s)) (m_WorkQueue s)"
  shows "\<exists>s'. run (replicate (length (m_WorkQueue s)) WorkerStep) s = Inr s' \<and>
              idle s' \<and> m_WorkQueue s' = [] \<and> m_bDeleteLater s' = m_bDeleteLater s \<and>
              trace s' = trace s @ concat (map (task_events (heap s)) (m_WorkQueue s))"
  using assms
proof (induction "m_WorkQueue s" arbitrary: s)
  case Nil
  then show ?case by simp
next
  case (Cons a rest)
  let ?s1 = "s\<lparr>m_WorkQueue := rest, m_Mutex := None, owns_lock := False, pc := LoopTest,
                heap := (heap s)(a := None),
                trace := trace s @ task_events (heap s) a,
                mutations := mutations s @ [(Worker, WorkQueue, True)]\<rparr>"
  have q: "m_WorkQueue s = a # rest" using Cons.hyps(2) by simp
  have step: "Wait_step s = Some (Inr ?s1)"
    using Cons.prems q by (intro worker_runs_front) simp_all
  have a: "a \<notin> set rest" and d: "distinct rest"
    using Cons.prems(2) q by simp_all
  have h1: "heap ?s1 = (heap s)(a := None)" and t1: "trace ?s1 = trace s @ task_events (heap s) a"
    by simp_all
  have "map (task_events ((heap s)(a := None))) rest = map (task_events (heap s)) rest"
    using a by (auto intro!: task_events_other)
  then have same: "concat (map (task_events (heap ?s1)) rest)
                     = concat (map (task_events (heap s)) rest)"
    unfolding h1 by (rule arg_cong)
  have hk: "list_all (hooked (heap ?s1)) rest"
    using Cons.prems(3) q a by (auto simp: list_all_iff hooked_def)
  have "\<exists>s'. run (replicate (length (m_WorkQueue ?s1)) WorkerStep) ?s1 = Inr s' \<and>
              idle s' \<and> m_WorkQueue s' = [] \<and> m_bDeleteLater s' = m_bDeleteLater ?s1 \<and>
              trace s' = trace ?s1 @ concat (map (task_events (heap ?s1)) (m_WorkQueue ?s1))"
    using Cons.prems(1) d hk by (intro Cons.hyps(1)) (simp_all add: idle_def)
  then obtain s' where r: "run (replicate (length rest) WorkerStep) ?s1 = Inr s'"
    and i: "idle s'" "m_WorkQueue s' = []" "m_bDeleteLater s' = m_bDeleteLater s"
    and t: "trace s' = trace ?s1 @ concat (map (task_events (heap ?s1)) rest)"
    by force
  from t have "trace s' = trace ?s1 @ concat (map (task_events (heap s)) rest)"
    by (simp only: same)
  then have "trace s' = trace s @ concat (map (task_events (heap s)) (a # rest))"
    by (simp only: t1) simp
  with r i show ?case
    using q step by (simp add: and_then_def)
qed

lemma worker_exits_when_drained:
  assumes "idle s" and "m_WorkQueue s = []" and "m_bDeleteLater s"
  shows "Wait_step s = Some (Inr (s\<lparr>m_Mutex := None, owns_lock := False, pc := Exited\<rparr>))"
proof -
  from assms(1) consider "pc s = CondWait" | "pc s = LoopTest" "\<not> owns_lock s"
    by (auto simp: idle_def)
  then show ?thesis
  proof cases
    case 1
    with assms show ?thesis
      by (simp add: Wait_step_def wait_predicate_def lock_def idle_def Wait_body_def
          SafeRelease_def Clear_empty unlock_def and_then_def)
  next
    case 2
    with assms show ?thesis
      by (simp add: Wait_step_def wait_predicate_def lock_def idle_def Wait_body_def
          SafeRelease_def Clear_empty unlock_def and_then_def)
  qed
qed

lemma graceful_drain_with_hooks:
  assumes "idle s" and "m_bDeleteLater s" and "distinct (m_WorkQueue s)"
    and "list_all (hooked (heap s)) (m_WorkQueue s)"
  shows "\<exists>s'. run (replicate (Suc (length (m_WorkQueue s))) WorkerStep) s = Inr s' \<and>
              pc s' = Exited \<and> m_WorkQueue s' = [] \<and>
              trace s' = trace s @ concat (map (task_events (heap s)) (m_WorkQueue s))"
proof -
  from worker_drains_in_order [OF assms(1,3,4)] obtain s1 where
    1: "run (replicate (length (m_WorkQueue s)) WorkerStep) s = Inr s1" "idle s1"
       "m_WorkQueue s1 = []" "m_bDeleteLater s1"
       "trace s1 = trace s @ concat (map (task_events (heap s)) (m_WorkQueue s))"
    using assms(2) by auto
  have "replicate (Suc (length (m_WorkQueue s))) WorkerStep
          = replicate (length (m_WorkQueue s)) WorkerStep @ [WorkerStep]"
    by (simp add: replicate_append_same)
  then show ?thesis
    using 1 worker_exits_when_drained [OF 1(2,3,4)]
    by (simp only: run_append) (simp add: and_then_def)
qed


text \<open>
  C3. The worker is idle; \<open>TryPost(f7)\<close> takes the mutex, enqueues handle 0 and returns
  true, and \<open>Post(f8, hook 1)\<close> enqueues handle 1 behind it. The worker takes handle 0
  from the front and calls \<open>Run\<close>, which stops at the null hook pointer of handle 0:
  neither callable has run, and handle 1 stays in the queue for good.
\<close>

theorem TryPost_task_is_not_executed:
  "fst (TryPost (Producer 0) 7 (final (run [WorkerStep, WorkerStep] CServiceThread))) = True \<and>
   m_WorkQueue (final (run [WorkerStep, WorkerStep, CallTryPost (Producer 0) 7,
       CallPostHandler (Producer 1) 8 (Ptr 1)] CServiceThread)) = [0, 1] \<and>
   fault_of (run [WorkerStep, WorkerStep, CallTryPost (Producer 0) 7,
       CallPostHandler (Producer 1) 8 (Ptr 1), WorkerStep] CServiceThread)
     = Some NullDereference \<and>
   trace (final (run [WorkerStep, WorkerStep, CallTryPost (Producer 0) 7,
       CallPostHandler (Producer 1) 8 (Ptr 1), WorkerStep] CServiceThread)) = [] \<and>
   m_WorkQueue (final (run [WorkerStep, WorkerStep, CallTryPost (Producer 0) 7,
       CallPostHandler (Producer 1) 8 (Ptr 1), WorkerStep] CServiceThread)) = [1]"
  by (simp add: CServiceThread_def TryPost_def try_lock_def Post_f_handler_def lock_def
      unlock_def new_def push_back_def pop_front_def written_def notify_all_def or_stay_def
      and_then_def Wait_step_def wait_predicate_def Wait_body_def CServiceFunction_Run_def
      call_handler_def CServiceFunction_f_def CServiceFunction_f_handler_def)

text \<open>
  C4. The worker is idle; \<open>Post(f7)\<close> enqueues handle 0 and \<open>ReleaseAfterWork\<close> is
  called with this one task queued. The worker wakes, takes handle 0 and calls \<open>Run\<close>,
  which stops at the null hook pointer: the task has not run and the worker has not
  reached \<open>SafeRelease\<close>.
\<close>

theorem graceful_stop_with_hookless_task:
  "m_WorkQueue (final (run [WorkerStep, WorkerStep, CallPost (Producer 0) 7,
       CallReleaseAfterWork (Producer 0)] CServiceThread)) = [0] \<and>
   fault_of (run [WorkerStep, WorkerStep, CallPost (Producer 0) 7,
       CallReleaseAfterWork (Producer 0), WorkerStep] CServiceThread)
     = Some NullDereference \<and>
   trace (final (run [WorkerStep, WorkerStep, CallPost (Producer 0) 7,
       CallReleaseAfterWork (Producer 0), WorkerStep] CServiceThread)) = [] \<and>
   pc (final (run [WorkerStep, WorkerStep, CallPost (Producer 0) 7,
       CallReleaseAfterWork (Producer 0), WorkerStep] CServiceThread)) = CondWait"
  by (simp add: CServiceThread_def Post_f_def ReleaseAfterWork_def lock_def
      unlock_def new_def push_back_def pop_front_def written_def notify_all_def or_stay_def
      and_then_def Wait_step_def wait_predicate_def Wait_body_def CServiceFunction_Run_def
      call_handler_def CServiceFunction_f_def)


end
